theory Spec2Isabelle
  imports Main "HOL-Library.Sublist" "HOL-Library.Char_ord" "HOL-Library.List_Lexorder"
begin

section \<open>The crawler of \<^verbatim>\<open>scrapper/crawler.py\<close>\<close>

text \<open>
  The development embeds \<^verbatim>\<open>src/scrapper/crawler.py\<close>: URL normalisation, the same-site
  policy, seed discovery, the worker loop of \<^verbatim>\<open>crawl_bfs\<close> and \<^verbatim>\<open>crawl_site\<close>.

  Python strings are modelled as \<^typ>\<open>string\<close>, a character being a code point below 256.
  What the crawler takes from its libraries is of two kinds. The functions of
  \<^verbatim>\<open>urllib.parse\<close> that \<^verbatim>\<open>normalize_url\<close> and \<^verbatim>\<open>same_site\<close> call
  (\<^verbatim>\<open>urlsplit\<close>, \<^verbatim>\<open>urlparse\<close>, \<^verbatim>\<open>urlunsplit\<close>, \<^verbatim>\<open>urlunparse\<close>) are written out
  as CPython 3.11.10 has them (the package declares \<^verbatim>\<open>python_requires=">=3.11"\<close>).
  Everything else (the network, the HTML, XML and feed parsers, \<^verbatim>\<open>tldextract\<close>,
  \<^verbatim>\<open>re.search\<close>, \<^verbatim>\<open>urljoin\<close>, the validation of a bracketed IP literal and the
  iteration order of a Python set) is a field of the record \<open>env\<close>, over which every
  theorem is universally quantified.
\<close>

subsection \<open>Errors\<close>

datatype error = ValueError | ReError

subsection \<open>The environment\<close>

text \<open>
  \<^verbatim>\<open>httpx\<close> answers a GET with a response or raises; of the response the crawler reads the
  status code, the \<^verbatim>\<open>content-type\<close> header (\<^verbatim>\<open>""\<close> when absent) and, through
  BeautifulSoup, the \<^verbatim>\<open>href\<close> values of the anchors of the body, in document order.
\<close>

record response =
  status_code :: int
  content_type :: string
  hrefs :: "string list"

record env =
  bracketed_host_ok :: "string \<Rightarrow> bool"
    \<comment> \<open>\<^verbatim>\<open>_check_bracketed_host\<close> returns without raising\<close>
  tld_extract :: "string \<Rightarrow> string \<times> string"
    \<comment> \<open>\<^verbatim>\<open>tldextract.extract(url)\<close>: its \<^verbatim>\<open>domain\<close> and \<^verbatim>\<open>suffix\<close>\<close>
  re_search :: "string \<Rightarrow> string \<Rightarrow> bool option"
    \<comment> \<open>\<^verbatim>\<open>re.search(p, s)\<close> found a match; \<open>None\<close> when it raises \<^verbatim>\<open>re.error\<close>\<close>
  urljoin :: "string \<Rightarrow> string \<Rightarrow> string option"
    \<comment> \<open>\<^verbatim>\<open>urllib.parse.urljoin(base, url)\<close>; \<open>None\<close> when it raises \<^verbatim>\<open>ValueError\<close>\<close>
  sitemap_get :: "string \<Rightarrow> string list option"
    \<comment> \<open>the texts of the \<^verbatim>\<open><loc>\<close> elements of the sitemap at this URL; \<open>None\<close> when
        the request raises, the status is not 200 or the parser raises\<close>
  feed_parse :: "string \<Rightarrow> string list option"
    \<comment> \<open>\<^verbatim>\<open>entry.get('link') or entry.get('id')\<close> of each entry of the feed at this
        URL, \<^verbatim>\<open>""\<close> for an entry with neither; \<open>None\<close> when \<^verbatim>\<open>feedparser\<close> raises or
        reports \<^verbatim>\<open>bozo\<close>\<close>
  http_get :: "string \<Rightarrow> response option"
    \<comment> \<open>\<^verbatim>\<open>client.get(url, ...)\<close>; \<open>None\<close> when it raises\<close>
  iter_order :: "string list \<Rightarrow> string list"
    \<comment> \<open>the order in which Python iterates over the set whose elements were inserted
        in the order of the argument\<close>

subsection \<open>Strings\<close>

definition lower_char :: "char \<Rightarrow> char" where
  "lower_char c =
     (let n = (of_char c :: nat)
      in if (65 \<le> n \<and> n \<le> 90) \<or> (192 \<le> n \<and> n \<le> 222 \<and> n \<noteq> 215)
         then char_of (n + 32) else c)"

definition lower :: "string \<Rightarrow> string" where
  "lower s = map lower_char s"

definition startswith :: "string \<Rightarrow> string \<Rightarrow> bool" where
  "startswith s p = prefix p s"

definition endswith :: "string \<Rightarrow> string \<Rightarrow> bool" where
  "endswith s p = prefix (rev p) (rev s)"

text \<open>\<^verbatim>\<open>p in s\<close> for strings: \<open>p\<close> occurs in \<open>s\<close> as a contiguous block.\<close>

fun contains :: "string \<Rightarrow> string \<Rightarrow> bool" where
  "contains [] p = (p = [])"
| "contains (c # cs) p = (prefix p (c # cs) \<or> contains cs p)"

text \<open>\<^verbatim>\<open>s.split(c, 1)\<close> when \<open>c\<close> occurs in \<open>s\<close>, and \<^verbatim>\<open>s.partition(c)\<close>.\<close>

definition before :: "char \<Rightarrow> string \<Rightarrow> string" where
  "before c s = takeWhile (\<lambda>x. x \<noteq> c) s"

definition after :: "char \<Rightarrow> string \<Rightarrow> string" where
  "after c s = drop 1 (dropWhile (\<lambda>x. x \<noteq> c) s)"

definition rstrip :: "char \<Rightarrow> string \<Rightarrow> string" where
  "rstrip c s = rev (dropWhile (\<lambda>x. x = c) (rev s))"

definition lstrip :: "char \<Rightarrow> string \<Rightarrow> string" where
  "lstrip c s = dropWhile (\<lambda>x. x = c) s"

subsection \<open>\<^verbatim>\<open>urllib.parse\<close>\<close>

definition uses_netloc :: "string list" where
  "uses_netloc = ['''', ''ftp'', ''http'', ''gopher'', ''nntp'', ''telnet'',
     ''imap'', ''wais'', ''file'', ''mms'', ''https'', ''shttp'',
     ''snews'', ''prospero'', ''rtsp'', ''rtsps'', ''rtspu'', ''rsync'',
     ''svn'', ''svn+ssh'', ''sftp'', ''nfs'', ''git'', ''git+ssh'',
     ''ws'', ''wss'']"

definition uses_params :: "string list" where
  "uses_params = ['''', ''ftp'', ''hdl'', ''prospero'', ''http'', ''imap'',
     ''https'', ''shttp'', ''rtsp'', ''rtsps'', ''rtspu'', ''sip'',
     ''sips'', ''mms'', ''sftp'', ''tel'']"

definition is_ascii_alpha :: "char \<Rightarrow> bool" where
  "is_ascii_alpha c =
     (let n = (of_char c :: nat) in (65 \<le> n \<and> n \<le> 90) \<or> (97 \<le> n \<and> n \<le> 122))"

definition is_scheme_char :: "char \<Rightarrow> bool" where
  "is_scheme_char c =
     (let n = (of_char c :: nat)
      in is_ascii_alpha c \<or> (48 \<le> n \<and> n \<le> 57) \<or> c \<in> set ''+-.'')"

text \<open>\<^verbatim>\<open>_WHATWG_C0_CONTROL_OR_SPACE\<close> and \<^verbatim>\<open>_UNSAFE_URL_BYTES_TO_REMOVE\<close>.\<close>

definition c0_control_or_space :: "char \<Rightarrow> bool" where
  "c0_control_or_space c = ((of_char c :: nat) \<le> 32)"

definition unsafe_url_byte :: "char \<Rightarrow> bool" where
  "unsafe_url_byte c = ((of_char c :: nat) \<in> {9, 13, 10})"

record split_result =
  sr_scheme :: string
  sr_netloc :: string
  sr_path :: string
  sr_query :: string
  sr_fragment :: string

record parse_result =
  scheme :: string
  netloc :: string
  path :: string
  params :: string
  query :: string
  fragment :: string

text \<open>
  The scheme of \<^verbatim>\<open>urlsplit\<close>: the text before the first colon, when that text is not
  empty, starts with an ASCII letter and holds scheme characters only.
\<close>

definition split_scheme :: "string \<Rightarrow> string \<times> string" where
  "split_scheme url =
     (if CHR '':'' \<in> set url \<and> before CHR '':'' url \<noteq> [] \<and> is_ascii_alpha (hd url)
         \<and> list_all is_scheme_char (before CHR '':'' url)
      then (lower (before CHR '':'' url), after CHR '':'' url)
      else ([], url))"

definition is_delim :: "char \<Rightarrow> bool" where
  "is_delim c = (c \<in> set ''/?#'')"

text \<open>\<^verbatim>\<open>_splitnetloc(url, 2)\<close>.\<close>

definition splitnetloc :: "string \<Rightarrow> string \<times> string" where
  "splitnetloc url =
     (takeWhile (\<lambda>c. \<not> is_delim c) (drop 2 url), dropWhile (\<lambda>c. \<not> is_delim c) (drop 2 url))"

text \<open>The fragment and the query are cut off the rest, in this order.\<close>

definition split_rest :: "string \<Rightarrow> string \<Rightarrow> string \<Rightarrow> split_result" where
  "split_rest sch nl url =
     (let frag = (if CHR ''#'' \<in> set url then after CHR ''#'' url else []);
          url1 = (if CHR ''#'' \<in> set url then before CHR ''#'' url else url);
          qry = (if CHR ''?'' \<in> set url1 then after CHR ''?'' url1 else []);
          url2 = (if CHR ''?'' \<in> set url1 then before CHR ''?'' url1 else url1)
      in \<lparr>sr_scheme = sch, sr_netloc = nl, sr_path = url2, sr_query = qry, sr_fragment = frag\<rparr>)"

text \<open>
  \<^verbatim>\<open>urlsplit(url)\<close>; \<open>None\<close> is its \<^verbatim>\<open>ValueError\<close>. \<^verbatim>\<open>_checknetloc\<close> has no branch
  here: on a netloc of code points below 256 the NFKC form holds none of
  \<^verbatim>\<open>/?#@:\<close> that the netloc did not hold, so it returns.
\<close>

definition urlsplit :: "env \<Rightarrow> string \<Rightarrow> split_result option" where
  "urlsplit e url0 =
     (let url = filter (\<lambda>c. \<not> unsafe_url_byte c) (dropWhile c0_control_or_space url0);
          (sch, url) = split_scheme url
      in if take 2 url = ''//'' then
           (let (nl, url) = splitnetloc url
            in if (CHR ''['' \<in> set nl \<and> CHR '']'' \<notin> set nl)
                  \<or> (CHR '']'' \<in> set nl \<and> CHR ''['' \<notin> set nl) then None
               else if CHR ''['' \<in> set nl \<and> CHR '']'' \<in> set nl
                       \<and> \<not> bracketed_host_ok e (before CHR '']'' (after CHR ''['' nl)) then None
               else Some (split_rest sch nl url))
         else Some (split_rest sch [] url))"

text \<open>
  \<^verbatim>\<open>_splitparams(url)\<close>, called when \<open>;\<close> occurs in \<open>url\<close>: the parameters start at the
  first \<open>;\<close> of the last path segment.
\<close>

definition last_segment :: "string \<Rightarrow> string" where
  "last_segment url = rev (takeWhile (\<lambda>c. c \<noteq> CHR ''/'') (rev url))"

definition upto_last_slash :: "string \<Rightarrow> string" where
  "upto_last_slash url = rev (dropWhile (\<lambda>c. c \<noteq> CHR ''/'') (rev url))"

definition splitparams :: "string \<Rightarrow> string \<times> string" where
  "splitparams url =
     (if CHR ''/'' \<in> set url then
        (if CHR '';'' \<notin> set (last_segment url) then (url, [])
         else (upto_last_slash url @ before CHR '';'' (last_segment url),
               after CHR '';'' (last_segment url)))
      else (before CHR '';'' url, after CHR '';'' url))"

definition urlparse :: "env \<Rightarrow> string \<Rightarrow> parse_result option" where
  "urlparse e url =
     (case urlsplit e url of
        None \<Rightarrow> None
      | Some r \<Rightarrow>
          (let (p, ps) = (if sr_scheme r \<in> set uses_params \<and> CHR '';'' \<in> set (sr_path r)
                          then splitparams (sr_path r) else (sr_path r, []))
           in Some \<lparr>scheme = sr_scheme r, netloc = sr_netloc r, path = p, params = ps,
                    query = sr_query r, fragment = sr_fragment r\<rparr>))"

definition urlunsplit :: "string \<Rightarrow> string \<Rightarrow> string \<Rightarrow> string \<Rightarrow> string \<Rightarrow> string" where
  "urlunsplit sch nl url qry frag =
     (let url = (if nl \<noteq> [] \<or> (sch \<noteq> [] \<and> sch \<in> set uses_netloc) \<or> take 2 url = ''//''
                 then ''//'' @ nl @ (if url \<noteq> [] \<and> take 1 url \<noteq> ''/'' then ''/'' @ url else url)
                 else url);
          url = (if sch \<noteq> [] then sch @ '':'' @ url else url);
          url = (if qry \<noteq> [] then url @ ''?'' @ qry else url);
          url = (if frag \<noteq> [] then url @ ''#'' @ frag else url)
      in url)"

definition urlunparse :: "string \<Rightarrow> string \<Rightarrow> string \<Rightarrow> string \<Rightarrow> string \<Rightarrow> string \<Rightarrow> string" where
  "urlunparse sch nl url ps qry frag =
     urlunsplit sch nl (if ps \<noteq> [] then url @ '';'' @ ps else url) qry frag"

subsection \<open>\<^verbatim>\<open>normalize_url\<close> and \<^verbatim>\<open>same_site\<close>\<close>

record CrawlContext =
  root :: string
  root_host :: string
  allowed_hosts :: "string set"

text \<open>Every exception inside \<^verbatim>\<open>normalize_url\<close> is caught and the input returned.\<close>

definition normalize_url :: "env \<Rightarrow> string \<Rightarrow> string" where
  "normalize_url e url =
     (case urlparse e url of
        None \<Rightarrow> url
      | Some parsed \<Rightarrow>
          if scheme parsed = [] then url
          else urlunparse (lower (scheme parsed)) (lower (netloc parsed))
                 (if path parsed = [] then ''/'' else path parsed)
                 (params parsed) (query parsed) [])"

text \<open>\<^verbatim>\<open>same_site\<close> does not catch the \<^verbatim>\<open>ValueError\<close> of \<^verbatim>\<open>urlparse\<close>.\<close>

definition same_site :: "env \<Rightarrow> string \<Rightarrow> CrawlContext \<Rightarrow> error + bool" where
  "same_site e url ctx =
     (case urlparse e url of
        None \<Rightarrow> Inl ValueError
      | Some parsed \<Rightarrow>
          (let host = lower (netloc parsed)
           in Inr (host \<in> allowed_hosts ctx \<or> endswith host (''.'' @ root_host ctx))))"

definition extract_domain :: "env \<Rightarrow> string \<Rightarrow> string" where
  "extract_domain e url =
     (let (d, s) = tld_extract e url
      in case filter (\<lambda>p. p \<noteq> []) [d, s] of
           [] \<Rightarrow> [] | [p] \<Rightarrow> p | p # q # _ \<Rightarrow> p @ ''.'' @ q)"

definition build_ctx :: "env \<Rightarrow> string \<Rightarrow> error + CrawlContext" where
  "build_ctx e root_url =
     (case urlparse e root_url of
        None \<Rightarrow> Inl ValueError
      | Some parsed \<Rightarrow>
          (let host = lower (netloc parsed);
               rh = extract_domain e root_url
           in Inr \<lparr>root = normalize_url e root_url, root_host = rh,
                   allowed_hosts = {host, rh, ''www.'' @ rh}\<rparr>))"

subsection \<open>Seed discovery, link extraction and \<^verbatim>\<open>fetch\<close>\<close>

text \<open>
  A Python set is modelled by the list of its insertions; \<^verbatim>\<open>list(s)\<close> and
  \<^verbatim>\<open>for x in s\<close> read it in the order the environment chooses.
\<close>

definition py_list :: "env \<Rightarrow> string list \<Rightarrow> string list" where
  "py_list e xs = iter_order e (remdups xs)"

definition sitemap_candidates :: "string list" where
  "sitemap_candidates =
     [''/sitemap.xml'', ''/sitemap_index.xml'', ''/sitemap/sitemap.xml'', ''/sitemap-index.xml'']"

definition feed_candidates :: "string list" where
  "feed_candidates =
     [''/feed'', ''/rss'', ''/rss.xml'', ''/index.xml'', ''/atom.xml'', ''/blog/rss.xml'',
      ''/blog/index.xml'']"

text \<open>
  \<^verbatim>\<open>[urljoin(root + '/', c.lstrip('/')) for c in candidates]\<close> with
  \<^verbatim>\<open>root = base_url.rstrip('/')\<close>; an exception of \<^verbatim>\<open>urljoin\<close> leaves the comprehension.
\<close>

definition guess :: "env \<Rightarrow> string list \<Rightarrow> string \<Rightarrow> string list option" where
  "guess e candidates base_url =
     those (map (\<lambda>c. urljoin e (rstrip CHR ''/'' base_url @ ''/'') (lstrip CHR ''/'' c)) candidates)"

definition guess_sitemaps :: "env \<Rightarrow> string \<Rightarrow> string list option" where
  "guess_sitemaps e base_url = guess e sitemap_candidates base_url"

definition guess_feeds :: "env \<Rightarrow> string \<Rightarrow> string list option" where
  "guess_feeds e base_url = guess e feed_candidates base_url"

text \<open>
  \<^verbatim>\<open>discover_from_sitemap\<close> catches every exception: one in \<^verbatim>\<open>guess_sitemaps\<close> ends the
  function with nothing discovered, one for a single sitemap skips that sitemap.
\<close>

definition discover_from_sitemap :: "env \<Rightarrow> string \<Rightarrow> string list" where
  "discover_from_sitemap e base_url =
     (case guess_sitemaps e base_url of
        None \<Rightarrow> []
      | Some sm_urls \<Rightarrow>
          concat (map (\<lambda>sm_url. case sitemap_get e sm_url of
                                   None \<Rightarrow> []
                                 | Some locs \<Rightarrow> map (normalize_url e) (filter (\<lambda>t. t \<noteq> []) locs))
                      sm_urls))"

text \<open>
  The links of one feed: an exception of \<^verbatim>\<open>urljoin\<close> leaves the loop over the entries
  and keeps what was added before it.
\<close>

fun feed_links :: "env \<Rightarrow> string \<Rightarrow> string list \<Rightarrow> string list" where
  "feed_links e feed_url [] = []"
| "feed_links e feed_url (link # links) =
     (if link = [] then feed_links e feed_url links
      else case urljoin e feed_url link of
             None \<Rightarrow> []
           | Some joined \<Rightarrow> normalize_url e joined # feed_links e feed_url links)"

text \<open>In \<^verbatim>\<open>discover_from_feeds\<close> the call of \<^verbatim>\<open>guess_feeds\<close> is outside the \<^verbatim>\<open>try\<close>.\<close>

definition discover_from_feeds :: "env \<Rightarrow> string \<Rightarrow> error + string list" where
  "discover_from_feeds e base_url =
     (case guess_feeds e base_url of
        None \<Rightarrow> Inl ValueError
      | Some feed_urls \<Rightarrow>
          Inr (concat (map (\<lambda>feed_url. case feed_parse e feed_url of
                                          None \<Rightarrow> []
                                        | Some links \<Rightarrow> feed_links e feed_url links)
                           feed_urls)))"

text \<open>\<^verbatim>\<open>inpage_discover\<close> over the anchors of the page; it catches nothing.\<close>

fun inpage_discover :: "env \<Rightarrow> string list \<Rightarrow> string \<Rightarrow> error + string list" where
  "inpage_discover e [] base_url = Inr []"
| "inpage_discover e (href # rest) base_url =
     (if startswith href ''mailto:'' \<or> startswith href ''tel:''
      then inpage_discover e rest base_url
      else case urljoin e base_url href of
             None \<Rightarrow> Inl ValueError
           | Some joined \<Rightarrow>
               (case inpage_discover e rest base_url of
                  Inl err \<Rightarrow> Inl err
                | Inr found \<Rightarrow> Inr (normalize_url e joined # found)))"

definition fetch :: "env \<Rightarrow> string \<Rightarrow> response option" where
  "fetch e url =
     (case http_get e url of
        None \<Rightarrow> None
      | Some resp \<Rightarrow> if status_code resp \<ge> 400 then None else Some resp)"

subsection \<open>The frontier and the workers of \<^verbatim>\<open>crawl_bfs\<close>\<close>

text \<open>
  The workers are asyncio tasks on one thread: a task runs until it suspends in an
  \<^verbatim>\<open>await\<close>, and then any other may run. A worker is modelled by the place where it is
  suspended, one step of the crawl being the run of one worker from that place to its next
  one. The places are the head of the loop, the call \<^verbatim>\<open>wait_for(to_visit.get())\<close> (whose
  inner task takes the item off the queue before the worker itself resumes), the
  acquisition of the semaphore, and \<^verbatim>\<open>fetch\<close>. \<^verbatim>\<open>to_visit.put\<close> on the unbounded queue
  does not suspend. A run that asyncio makes without suspending is the same worker stepping
  several times in a row.
\<close>

datatype wstate =
    AtLoopHead
  | InGet
  | HasItem string
  | AwaitSem string
  | InFetch string
  | Exited

text \<open>What happens to the frontier is recorded in \<open>trace\<close>, the newest event first.\<close>

datatype event = Put string | Seen string | Fetch string | Accept string

record frontier =
  to_visit :: "string list"
  seen :: "string set"
  results :: "string set"
  permits :: nat
  workers :: "wstate list"
  raised :: "error option"
  trace :: "event list"

text \<open>\<^verbatim>\<open>any(re.search(p, current) for p in exclude_patterns or [])\<close>.\<close>

fun any_excluded :: "env \<Rightarrow> string list \<Rightarrow> string \<Rightarrow> error + bool" where
  "any_excluded e [] current = Inr False"
| "any_excluded e (p # ps) current =
     (case re_search e p current of
        None \<Rightarrow> Inl ReError
      | Some True \<Rightarrow> Inr True
      | Some False \<Rightarrow> any_excluded e ps current)"

text \<open>The links that the loop over \<^verbatim>\<open>discovered_links\<close> puts on the queue.\<close>

fun links_to_put :: "env \<Rightarrow> CrawlContext \<Rightarrow> string set \<Rightarrow> string list \<Rightarrow> error + string list" where
  "links_to_put e ctx sn [] = Inr []"
| "links_to_put e ctx sn (link # links) =
     (case same_site e link ctx of
        Inl err \<Rightarrow> Inl err
      | Inr b \<Rightarrow>
          (case links_to_put e ctx sn links of
             Inl err \<Rightarrow> Inl err
           | Inr ps \<Rightarrow> Inr (if b \<and> link \<notin> sn then link # ps else ps)))"

definition set_worker :: "nat \<Rightarrow> wstate \<Rightarrow> frontier \<Rightarrow> frontier" where
  "set_worker i w s = s\<lparr>workers := (workers s)[i := w]\<rparr>"

text \<open>An exception that nothing catches ends the task of the worker.\<close>

definition raise :: "nat \<Rightarrow> error \<Rightarrow> frontier \<Rightarrow> frontier" where
  "raise i err s = set_worker i Exited (s\<lparr>raised := Some err\<rparr>)"

text \<open>\<^verbatim>\<open>while len(results) < max_pages:\<close> and the call of \<^verbatim>\<open>wait_for\<close>.\<close>

definition step_head :: "int \<Rightarrow> nat \<Rightarrow> frontier \<Rightarrow> frontier" where
  "step_head max_pages i s =
     (if int (card (results s)) < max_pages then set_worker i InGet s
      else set_worker i Exited s)"

text \<open>The queue hands over its first item; on an empty queue the timeout ends the worker.\<close>

definition step_get :: "nat \<Rightarrow> frontier \<Rightarrow> frontier" where
  "step_get i s =
     (case to_visit s of
        [] \<Rightarrow> set_worker i Exited s
      | current # rest \<Rightarrow> set_worker i (HasItem current) (s\<lparr>to_visit := rest\<rparr>))"

text \<open>From \<^verbatim>\<open>if current in seen\<close> to \<^verbatim>\<open>async with sem\<close>.\<close>

definition step_item :: "env \<Rightarrow> CrawlContext \<Rightarrow> string list \<Rightarrow> nat \<Rightarrow> string \<Rightarrow> frontier \<Rightarrow> frontier" where
  "step_item e ctx exclude_patterns i current s =
     (if current \<in> seen s then set_worker i AtLoopHead s
      else
        (let s = s\<lparr>seen := insert current (seen s), trace := Seen current # trace s\<rparr>
         in case same_site e current ctx of
              Inl err \<Rightarrow> raise i err s
            | Inr False \<Rightarrow> set_worker i AtLoopHead s
            | Inr True \<Rightarrow>
                (case any_excluded e exclude_patterns current of
                   Inl err \<Rightarrow> raise i err s
                 | Inr True \<Rightarrow> set_worker i AtLoopHead s
                 | Inr False \<Rightarrow> set_worker i (AwaitSem current) s)))"

text \<open>The semaphore is taken when it has a permit, and \<^verbatim>\<open>fetch\<close> is called.\<close>

definition step_sem :: "nat \<Rightarrow> string \<Rightarrow> frontier \<Rightarrow> frontier" where
  "step_sem i current s =
     (if permits s = 0 then s
      else set_worker i (InFetch current)
             (s\<lparr>permits := permits s - 1, trace := Fetch current # trace s\<rparr>))"

text \<open>From the return of \<^verbatim>\<open>fetch\<close> to the end of the loop body.\<close>

definition step_fetch :: "env \<Rightarrow> CrawlContext \<Rightarrow> int \<Rightarrow> nat \<Rightarrow> string \<Rightarrow> frontier \<Rightarrow> frontier" where
  "step_fetch e ctx max_pages i current s =
     (let s = s\<lparr>permits := permits s + 1\<rparr>
      in case fetch e current of
           None \<Rightarrow> set_worker i AtLoopHead s
         | Some resp \<Rightarrow>
             if \<not> contains (content_type resp) ''text/html'' then set_worker i AtLoopHead s
             else
               (let s = s\<lparr>results := insert current (results s), trace := Accept current # trace s\<rparr>
                in if int (card (results s)) \<ge> max_pages then set_worker i Exited s
                   else
                     (case inpage_discover e (hrefs resp) current of
                        Inl err \<Rightarrow> raise i err s
                      | Inr discovered_links \<Rightarrow>
                          (case links_to_put e ctx (seen s) (py_list e discovered_links) of
                             Inl err \<Rightarrow> raise i err s
                           | Inr ps \<Rightarrow>
                               set_worker i AtLoopHead
                                 (s\<lparr>to_visit := to_visit s @ ps,
                                    trace := rev (map Put ps) @ trace s\<rparr>)))))"

text \<open>
  One step of worker \<open>i\<close>. An exception in a worker ends \<^verbatim>\<open>asyncio.gather\<close> and with it the
  crawl: nothing runs after it.
\<close>

definition step :: "env \<Rightarrow> CrawlContext \<Rightarrow> int \<Rightarrow> string list \<Rightarrow> nat \<Rightarrow> frontier \<Rightarrow> frontier" where
  "step e ctx max_pages exclude_patterns i s =
     (if raised s \<noteq> None \<or> i \<ge> length (workers s) then s
      else case workers s ! i of
             AtLoopHead \<Rightarrow> step_head max_pages i s
           | InGet \<Rightarrow> step_get i s
           | HasItem current \<Rightarrow> step_item e ctx exclude_patterns i current s
           | AwaitSem current \<Rightarrow> step_sem i current s
           | InFetch current \<Rightarrow> step_fetch e ctx max_pages i current s
           | Exited \<Rightarrow> s)"

text \<open>A schedule names the worker of each step.\<close>

definition run :: "env \<Rightarrow> CrawlContext \<Rightarrow> int \<Rightarrow> string list \<Rightarrow> nat list \<Rightarrow> frontier \<Rightarrow> frontier" where
  "run e ctx max_pages exclude_patterns sched s = fold (step e ctx max_pages exclude_patterns) sched s"

text \<open>
  The frontier when the workers start: the root, then
  \<^verbatim>\<open>list(seed_urls)[:max(100, max_pages // 2)]\<close>.
\<close>

definition seeded :: "env \<Rightarrow> int \<Rightarrow> string list \<Rightarrow> string list" where
  "seeded e max_pages seed_urls = take (nat (max 100 (max_pages div 2))) (py_list e seed_urls)"

definition init :: "env \<Rightarrow> CrawlContext \<Rightarrow> int \<Rightarrow> nat \<Rightarrow> string list \<Rightarrow> frontier" where
  "init e ctx max_pages n seed_urls =
     \<lparr>to_visit = root ctx # seeded e max_pages seed_urls, seen = {}, results = {},
      permits = n, workers = replicate n AtLoopHead, raised = None,
      trace = rev (map Put (root ctx # seeded e max_pages seed_urls))\<rparr>"

definition all_exited :: "frontier \<Rightarrow> bool" where
  "all_exited s = list_all (\<lambda>w. w = Exited) (workers s)"

text \<open>
  \<^verbatim>\<open>crawl_bfs\<close> under a schedule: \<open>None\<close> when the schedule ends before \<^verbatim>\<open>gather\<close>
  returns. \<^verbatim>\<open>asyncio.Semaphore\<close> raises \<^verbatim>\<open>ValueError\<close> on a negative value.
\<close>

definition crawl_bfs_from ::
  "env \<Rightarrow> CrawlContext \<Rightarrow> int \<Rightarrow> int \<Rightarrow> string list \<Rightarrow> string list \<Rightarrow> nat list \<Rightarrow> frontier" where
  "crawl_bfs_from e ctx max_pages concurrency exclude_patterns seed_urls sched =
     run e ctx max_pages exclude_patterns sched (init e ctx max_pages (nat concurrency) seed_urls)"

definition crawl_bfs ::
  "env \<Rightarrow> string \<Rightarrow> int \<Rightarrow> int \<Rightarrow> string list \<Rightarrow> string list \<Rightarrow> nat list
     \<Rightarrow> (error + string set) option" where
  "crawl_bfs e root_url max_pages concurrency include_patterns exclude_patterns sched =
     (case build_ctx e root_url of
        Inl err \<Rightarrow> Some (Inl err)
      | Inr ctx \<Rightarrow>
          (case discover_from_feeds e (root ctx) of
             Inl err \<Rightarrow> Some (Inl err)
           | Inr from_feeds \<Rightarrow>
               if concurrency < 0 then Some (Inl ValueError)
               else
                 (let s = crawl_bfs_from e ctx max_pages concurrency exclude_patterns
                            (discover_from_sitemap e (root ctx) @ from_feeds) sched
                  in case raised s of
                       Some err \<Rightarrow> Some (Inl err)
                     | None \<Rightarrow> if all_exited s then Some (Inr (results s)) else None)))"

subsection \<open>\<^verbatim>\<open>crawl_site\<close>\<close>

text \<open>The loop that adds the seed candidates while the set is below \<^verbatim>\<open>max_pages\<close>.\<close>

fun merge_seeds :: "int \<Rightarrow> string set \<Rightarrow> string list \<Rightarrow> string set" where
  "merge_seeds max_pages all_urls [] = all_urls"
| "merge_seeds max_pages all_urls (u # us) =
     (if int (card all_urls) \<ge> max_pages then all_urls
      else merge_seeds max_pages (insert u all_urls) us)"

definition crawl_site ::
  "env \<Rightarrow> string \<Rightarrow> int \<Rightarrow> int \<Rightarrow> string list \<Rightarrow> string list \<Rightarrow> nat list
     \<Rightarrow> (error + string list) option" where
  "crawl_site e root_url max_pages concurrency include_patterns exclude_patterns sched =
     (case build_ctx e root_url of
        Inl err \<Rightarrow> Some (Inl err)
      | Inr ctx \<Rightarrow>
          (case discover_from_feeds e root_url of
             Inl err \<Rightarrow> Some (Inl err)
           | Inr urls_from_feeds \<Rightarrow>
               (let seed = py_list e (discover_from_sitemap e root_url @ urls_from_feeds)
                in case crawl_bfs e root_url max_pages concurrency include_patterns
                          exclude_patterns sched of
                     None \<Rightarrow> None
                   | Some (Inl err) \<Rightarrow> Some (Inl err)
                   | Some (Inr crawled) \<Rightarrow>
                       (let all_urls = merge_seeds max_pages crawled seed;
                            all_urls = (if all_urls = {} then insert root_url all_urls else all_urls)
                        in Some (Inr (sorted_list_of_set all_urls))))))"

section \<open>Invariants of the frontier\<close>

fun inflight :: "wstate \<Rightarrow> string option" where
  "inflight (AwaitSem u) = Some u"
| "inflight (InFetch u) = Some u"
| "inflight _ = None"

definition inv_parts :: "string set \<Rightarrow> string set \<Rightarrow> wstate list \<Rightarrow> bool" where
  "inv_parts sn rs ws =
     (finite sn \<and> finite rs \<and> rs \<subseteq> sn \<and>
      (\<forall>i<length ws. \<forall>u. inflight (ws ! i) = Some u \<longrightarrow>
         u \<in> sn \<and> u \<notin> rs \<and> (\<forall>j<length ws. j \<noteq> i \<longrightarrow> inflight (ws ! j) \<noteq> Some u)))"

definition inv_frontier :: "frontier \<Rightarrow> bool" where
  "inv_frontier s = inv_parts (seen s) (results s) (workers s)"

fun seens :: "event list \<Rightarrow> string list" where
  "seens [] = []"
| "seens (Seen u # es) = u # seens es"
| "seens (_ # es) = seens es"

fun fetches :: "event list \<Rightarrow> string list" where
  "fetches [] = []"
| "fetches (Fetch u # es) = u # fetches es"
| "fetches (_ # es) = fetches es"

fun accepts :: "event list \<Rightarrow> string list" where
  "accepts [] = []"
| "accepts (Accept u # es) = u # accepts es"
| "accepts (_ # es) = accepts es"

fun no_put_after_seen :: "event list \<Rightarrow> bool" where
  "no_put_after_seen [] = True"
| "no_put_after_seen (Put u # older) = (u \<notin> set (seens older) \<and> no_put_after_seen older)"
| "no_put_after_seen (_ # older) = no_put_after_seen older"

definition awaiting :: "wstate list \<Rightarrow> string set" where
  "awaiting ws = {u. \<exists>i<length ws. ws ! i = AwaitSem u}"

definition inv_tr :: "string set \<Rightarrow> string set \<Rightarrow> wstate list \<Rightarrow> event list \<Rightarrow> bool" where
  "inv_tr sn rs ws tr =
     (set (seens tr) = sn \<and> set (accepts tr) = rs \<and> set (fetches tr) \<subseteq> sn \<and>
      distinct (seens tr) \<and> distinct (fetches tr) \<and> distinct (accepts tr) \<and>
      awaiting ws \<inter> set (fetches tr) = {} \<and> no_put_after_seen tr)"

definition inv_trace :: "frontier \<Rightarrow> bool" where
  "inv_trace s = inv_tr (seen s) (results s) (workers s) (trace s)"

fun holds_permit :: "wstate \<Rightarrow> nat" where
  "holds_permit (InFetch u) = 1"
| "holds_permit _ = 0"

definition inv_sem :: "frontier \<Rightarrow> bool" where
  "inv_sem s = (permits s + sum_list (map holds_permit (workers s)) = length (workers s))"

fun weight :: "wstate \<Rightarrow> nat" where
  "weight Exited = 0"
| "weight InGet = 1"
| "weight AtLoopHead = 2"
| "weight (InFetch u) = 3"
| "weight (AwaitSem u) = 4"
| "weight (HasItem u) = 5"

definition rank_of :: "int \<Rightarrow> string set \<Rightarrow> string list \<Rightarrow> wstate list \<Rightarrow> nat \<times> nat" where
  "rank_of max_pages rs q ws =
     (nat (max_pages - int (card rs)), 5 * length q + sum_list (map weight ws))"

definition rank :: "int \<Rightarrow> frontier \<Rightarrow> nat \<times> nat" where
  "rank max_pages s = rank_of max_pages (results s) (to_visit s) (workers s)"

definition enabled :: "nat \<Rightarrow> frontier \<Rightarrow> bool" where
  "enabled i s =
     (raised s = None \<and> i < length (workers s) \<and>
      (case workers s ! i of Exited \<Rightarrow> False | AwaitSem u \<Rightarrow> 0 < permits s | _ \<Rightarrow> True))"

definition finished :: "frontier \<Rightarrow> bool" where
  "finished s = (raised s \<noteq> None \<or> all_exited s)"

abbreviation rank_less :: "((nat \<times> nat) \<times> (nat \<times> nat)) set" where
  "rank_less \<equiv> less_than <*lex*> less_than"

definition inv_all :: "frontier \<Rightarrow> bool" where
  "inv_all s = (inv_frontier s \<and> inv_trace s \<and> inv_sem s)"






fun about :: "string \<Rightarrow> wstate \<Rightarrow> bool" where
  "about r (HasItem u) = (u = r)"
| "about r (AwaitSem u) = (u = r)"
| "about r (InFetch u) = (u = r)"
| "about r _ = True"

definition only_root :: "string \<Rightarrow> frontier \<Rightarrow> bool" where
  "only_root r s =
     (results s = {} \<and> raised s = None \<and> set (to_visit s) \<subseteq> {r} \<and>
      list_all (about r) (workers s))"

section \<open>Example sites\<close>

text \<open>
  Concrete environments for the site \<^verbatim>\<open>a.com\<close>: the sitemap at
  \<^verbatim>\<open>https://a.com/sitemap.xml\<close> lists \<open>locs\<close>, there is no feed, and \<open>pages\<close> answers the
  GET requests. The patterns used with them are plain substrings, for which
  \<^verbatim>\<open>re.search\<close> is containment, and the links are absolute, which \<^verbatim>\<open>urljoin\<close> returns
  as they are.
\<close>

definition html_page :: "string list \<Rightarrow> response" where
  "html_page links =
     \<lparr>status_code = 200, content_type = ''text/html; charset=utf-8'', hrefs = links\<rparr>"

definition join_abs :: "string \<Rightarrow> string \<Rightarrow> string option" where
  "join_abs base url = Some (if contains url ''://'' then url else base @ url)"

definition site_env :: "string list \<Rightarrow> (string \<Rightarrow> response option) \<Rightarrow> env" where
  "site_env locs pages =
     \<lparr>bracketed_host_ok = (\<lambda>_. True),
      tld_extract = (\<lambda>_. (''a'', ''com'')),
      re_search = (\<lambda>p s. Some (contains s p)),
      urljoin = join_abs,
      sitemap_get = (\<lambda>u. if u = ''https://a.com/sitemap.xml'' then Some locs else None),
      feed_parse = (\<lambda>_. None),
      http_get = pages,
      iter_order = (\<lambda>xs. xs)\<rparr>"

definition a_ctx :: CrawlContext where
  "a_ctx = \<lparr>root = ''https://a.com/'', root_host = ''a.com'',
            allowed_hosts = {''a.com'', ''a.com'', ''www.a.com''}\<rparr>"

text \<open>The home page and one more page, listed in the sitemap; neither has links.\<close>

definition two_pages :: env where
  "two_pages =
     site_env [''https://a.com/p'']
       (\<lambda>u. if u = ''https://a.com/'' \<or> u = ''https://a.com/p'' then Some (html_page []) else None)"

text \<open>The sitemap lists the privacy page.\<close>

definition privacy_site :: env where
  "privacy_site =
     site_env [''https://a.com/privacy'']
       (\<lambda>u. if u = ''https://a.com/'' \<or> u = ''https://a.com/privacy'' then Some (html_page [])
            else None)"

text \<open>Two pages that link to each other, and no sitemap.\<close>

definition cycle_site :: env where
  "cycle_site =
     site_env []
       (\<lambda>u. if u = ''https://a.com/'' then Some (html_page [''https://a.com/b''])
            else if u = ''https://a.com/b'' then Some (html_page [''https://a.com/''])
            else None)"

text \<open>A page \<open>c\<close> linked from the home page and from \<open>b\<close>.\<close>

definition diamond_site :: env where
  "diamond_site =
     site_env []
       (\<lambda>u. if u = ''https://a.com/'' then Some (html_page [''https://a.com/b'', ''https://a.com/c''])
            else if u = ''https://a.com/b'' then Some (html_page [''https://a.com/c''])
            else if u = ''https://a.com/c'' then Some (html_page [])
            else None)"

text \<open>
  A hundred old posts and then the home page, as a seed list of 101 URLs; on the site
  only the home page answers.
\<close>

definition old_post :: "nat \<Rightarrow> string" where
  "old_post n = ''https://a.com/old/'' @ replicate n CHR ''x''"



text \<open>
  A site on which no request succeeds; and the same site under the \<^verbatim>\<open>re\<close> module as it
  is on the pattern \<^verbatim>\<open>(\<close>, which \<^verbatim>\<open>re.search\<close> rejects with \<^verbatim>\<open>re.error\<close> (missing
  closing parenthesis).
\<close>

definition dead_site :: env where
  "dead_site = site_env [] (\<lambda>u. None)"

definition dead_site_re :: env where
  "dead_site_re =
     dead_site\<lparr>re_search := (\<lambda>p s. if p = ''('' then None else Some (contains s p))\<rparr>"

section \<open>Properties of the worker loop\<close>

lemma inv_partsI:
  assumes "finite sn" "finite rs" "rs \<subseteq> sn"
    and "\<And>i u. i < length ws \<Longrightarrow> inflight (ws ! i) = Some u \<Longrightarrow> u \<in> sn \<and> u \<notin> rs"
    and "\<And>i j u. i < length ws \<Longrightarrow> j < length ws \<Longrightarrow> j \<noteq> i \<Longrightarrow> inflight (ws ! i) = Some u
           \<Longrightarrow> inflight (ws ! j) = Some u \<Longrightarrow> False"
  shows "inv_parts sn rs ws"
  unfolding inv_parts_def using assms by blast

lemma inv_partsD:
  assumes "inv_parts sn rs ws"
  shows "finite sn" "finite rs" "rs \<subseteq> sn"
    and "\<And>i u. i < length ws \<Longrightarrow> inflight (ws ! i) = Some u \<Longrightarrow> u \<in> sn \<and> u \<notin> rs"
    and "\<And>i j u. i < length ws \<Longrightarrow> j < length ws \<Longrightarrow> j \<noteq> i \<Longrightarrow> inflight (ws ! i) = Some u
           \<Longrightarrow> inflight (ws ! j) \<noteq> Some u"
  using assms unfolding inv_parts_def by blast+

lemma inflight_update:
  "inflight (ws[i := w] ! k) = (if i = k \<and> i < length ws then inflight w else inflight (ws ! k))"
  by (cases "i < length ws") (simp_all add: nth_list_update list_update_beyond)

lemma inv_parts_idle:
  assumes "inv_parts sn rs ws" "inflight w = None"
  shows "inv_parts sn rs (ws[i := w])"
proof (rule inv_partsI)
  fix k u assume "k < length (ws[i := w])" "inflight (ws[i := w] ! k) = Some u"
  then have "k < length ws" "inflight (ws ! k) = Some u"
    using assms(2) by (auto simp: inflight_update split: if_splits)
  then show "u \<in> sn \<and> u \<notin> rs" using inv_partsD(4)[OF assms(1)] by blast
next
  fix k j u assume "k < length (ws[i := w])" "j < length (ws[i := w])" "j \<noteq> k"
    "inflight (ws[i := w] ! k) = Some u" "inflight (ws[i := w] ! j) = Some u"
  then have "k < length ws" "j < length ws" "inflight (ws ! k) = Some u" "inflight (ws ! j) = Some u"
    using assms(2) by (auto simp: inflight_update split: if_splits)
  then show False using inv_partsD(5)[OF assms(1)] \<open>j \<noteq> k\<close> by blast
qed (use assms in \<open>auto dest: inv_partsD\<close>)

lemma inv_parts_claim:
  assumes "inv_parts sn rs ws" "u \<notin> sn" "inflight w = None \<or> inflight w = Some u"
  shows "inv_parts (insert u sn) rs (ws[i := w])"
proof (rule inv_partsI)
  fix k v assume "k < length (ws[i := w])" "inflight (ws[i := w] ! k) = Some v"
  then have "k < length ws" "inflight (ws ! k) = Some v \<or> v = u"
    using assms(3) by (auto simp: inflight_update split: if_splits)
  moreover have "u \<notin> rs" using assms(2) inv_partsD(3)[OF assms(1)] by blast
  ultimately show "v \<in> insert u sn \<and> v \<notin> rs" using inv_partsD(4)[OF assms(1)] by blast
next
  fix k j v assume a: "k < length (ws[i := w])" "j < length (ws[i := w])" "j \<noteq> k"
    "inflight (ws[i := w] ! k) = Some v" "inflight (ws[i := w] ! j) = Some v"
  have old: "\<And>m. m < length ws \<Longrightarrow> inflight (ws ! m) \<noteq> Some u"
    using inv_partsD(4)[OF assms(1)] assms(2) by blast
  show False
  proof (cases "k = i \<or> j = i")
    case True
    then have "v = u" using a assms(3) old by (auto simp: inflight_update split: if_splits)
    then show False using a True old by (auto simp: inflight_update split: if_splits)
  next
    case False
    then have "inflight (ws ! k) = Some v" "inflight (ws ! j) = Some v"
      using a by (auto simp: inflight_update split: if_splits)
    then show False using inv_partsD(5)[OF assms(1), of k j v] a by simp
  qed
qed (use assms in \<open>auto dest: inv_partsD\<close>)

lemma inv_parts_same:
  assumes "inv_parts sn rs ws" "i < length ws" "inflight (ws ! i) = Some u" "inflight w = Some u"
  shows "inv_parts sn rs (ws[i := w])"
proof -
  have "\<And>k. inflight (ws[i := w] ! k) = inflight (ws ! k)"
    using assms(2-4) by (auto simp: inflight_update)
  then show ?thesis using assms(1) unfolding inv_parts_def by simp
qed

lemma inv_parts_accept:
  assumes "inv_parts sn rs ws" "i < length ws" "inflight (ws ! i) = Some u" "inflight w = None"
  shows "inv_parts sn (insert u rs) (ws[i := w])"
proof (rule inv_partsI)
  fix k v assume a: "k < length (ws[i := w])" "inflight (ws[i := w] ! k) = Some v"
  then have b: "k < length ws" "k \<noteq> i" "inflight (ws ! k) = Some v"
    using assms(4) by (auto simp: inflight_update split: if_splits)
  then have "v \<noteq> u" using inv_partsD(5)[OF assms(1), of i k u] assms(2,3) by auto
  then show "v \<in> sn \<and> v \<notin> insert u rs" using inv_partsD(4)[OF assms(1)] b by blast
next
  fix k j v assume "k < length (ws[i := w])" "j < length (ws[i := w])" "j \<noteq> k"
    "inflight (ws[i := w] ! k) = Some v" "inflight (ws[i := w] ! j) = Some v"
  then have "k < length ws" "j < length ws" "inflight (ws ! k) = Some v" "inflight (ws ! j) = Some v"
    using assms(4) by (auto simp: inflight_update split: if_splits)
  then show False using inv_partsD(5)[OF assms(1)] \<open>j \<noteq> k\<close> by blast
next
  show "insert u rs \<subseteq> sn" using inv_partsD(3,4)[OF assms(1)] assms(2,3) by blast
qed (use assms in \<open>auto dest: inv_partsD\<close>)

lemma inv_frontier_head:
  "inv_frontier s \<Longrightarrow> inv_frontier (step_head mp i s)"
  by (simp add: inv_frontier_def step_head_def set_worker_def inv_parts_idle)

lemma inv_frontier_get:
  "inv_frontier s \<Longrightarrow> inv_frontier (step_get i s)"
  by (simp add: inv_frontier_def step_get_def set_worker_def inv_parts_idle split: list.splits)

lemma inv_frontier_item:
  "inv_frontier s \<Longrightarrow> inv_frontier (step_item e ctx excl i u s)"
  by (simp add: inv_frontier_def step_item_def set_worker_def raise_def Let_def inv_parts_idle
      inv_parts_claim split: sum.splits bool.splits)

lemma inv_frontier_sem:
  "inv_frontier s \<Longrightarrow> i < length (workers s) \<Longrightarrow> workers s ! i = AwaitSem u \<Longrightarrow> inv_frontier (step_sem i u s)"
  by (simp add: inv_frontier_def step_sem_def set_worker_def inv_parts_same)

lemma inv_frontier_fetch:
  "inv_frontier s \<Longrightarrow> i < length (workers s) \<Longrightarrow> workers s ! i = InFetch u \<Longrightarrow> inv_frontier (step_fetch e ctx mp i u s)"
  by (simp add: inv_frontier_def step_fetch_def set_worker_def raise_def Let_def inv_parts_idle
      inv_parts_accept split: sum.splits option.splits)

lemma inv_frontier_step: "inv_frontier s \<Longrightarrow> inv_frontier (step e ctx mp excl i s)"
  by (simp add: step_def inv_frontier_head inv_frontier_get inv_frontier_item inv_frontier_sem
      inv_frontier_fetch split: wstate.splits)

lemma awaiting_update_other:
  assumes "\<And>v. w \<noteq> AwaitSem v"
  shows "awaiting (ws[i := w]) \<subseteq> awaiting ws"
proof
  fix u assume "u \<in> awaiting (ws[i := w])"
  then obtain k where k: "k < length ws" "ws[i := w] ! k = AwaitSem u"
    by (auto simp: awaiting_def)
  then have "ws ! k = AwaitSem u" using assms
    by (cases "i = k") (auto simp: nth_list_update)
  then show "u \<in> awaiting ws" using k(1) by (auto simp: awaiting_def)
qed

lemma awaiting_update_sem: "awaiting (ws[i := AwaitSem u]) \<subseteq> insert u (awaiting ws)"
proof
  fix v assume "v \<in> awaiting (ws[i := AwaitSem u])"
  then obtain k where k: "k < length ws" "ws[i := AwaitSem u] ! k = AwaitSem v"
    by (auto simp: awaiting_def)
  then show "v \<in> insert u (awaiting ws)"
    by (cases "i = k") (auto simp: nth_list_update awaiting_def)
qed

lemma awaiting_inflight: "u \<in> awaiting ws \<Longrightarrow> \<exists>i<length ws. inflight (ws ! i) = Some u"
  by (auto simp: awaiting_def)

lemma puts_only:
  "seens (rev (map Put ps) @ tr) = seens tr"
  "fetches (rev (map Put ps) @ tr) = fetches tr"
  "accepts (rev (map Put ps) @ tr) = accepts tr"
  by (induction ps arbitrary: tr) simp_all

lemma no_put_after_seen_puts:
  "no_put_after_seen (rev (map Put ps) @ tr) = (set ps \<inter> set (seens tr) = {} \<and> no_put_after_seen tr)"
  by (induction ps arbitrary: tr) (auto simp: puts_only)

lemma inv_tr_idle:
  assumes "inv_tr sn rs ws tr" "\<And>v. w \<noteq> AwaitSem v"
  shows "inv_tr sn rs (ws[i := w]) tr"
  using assms(1) awaiting_update_other[of w ws i, OF assms(2)] unfolding inv_tr_def by blast

lemma inv_tr_claim:
  assumes "inv_tr sn rs ws tr" "u \<notin> sn" "w = AwaitSem u \<or> (\<forall>v. w \<noteq> AwaitSem v)"
  shows "inv_tr (insert u sn) rs (ws[i := w]) (Seen u # tr)"
proof -
  have "awaiting (ws[i := w]) \<subseteq> insert u (awaiting ws)"
    using assms(3) awaiting_update_sem[of ws i u] awaiting_update_other[of w ws i] by blast
  moreover have "u \<notin> set (fetches tr)" using assms(1,2) unfolding inv_tr_def by blast
  ultimately show ?thesis using assms(1,2) unfolding inv_tr_def by auto
qed

lemma inv_tr_sem:
  assumes "inv_tr sn rs ws tr" "inv_parts sn rs ws" "i < length ws" "ws ! i = AwaitSem u"
  shows "inv_tr sn rs (ws[i := InFetch u]) (Fetch u # tr)"
proof -
  have u: "u \<in> awaiting ws" using assms(3,4) by (auto simp: awaiting_def)
  have "u \<notin> awaiting (ws[i := InFetch u])"
  proof
    assume "u \<in> awaiting (ws[i := InFetch u])"
    then obtain k where k: "k < length ws" "ws[i := InFetch u] ! k = AwaitSem u"
      by (auto simp: awaiting_def)
    then have "k \<noteq> i" "ws ! k = AwaitSem u" using assms(3)
      by (cases "i = k"; auto simp: nth_list_update)+
    then show False using inv_partsD(5)[OF assms(2), of i k u] assms(3,4) k(1) by simp
  qed
  moreover have "awaiting (ws[i := InFetch u]) \<subseteq> awaiting ws"
    by (rule awaiting_update_other) simp
  moreover have "u \<in> sn" using inv_partsD(4)[OF assms(2), of i u] assms(3,4) by simp
  ultimately show ?thesis using assms(1) u unfolding inv_tr_def by auto
qed

lemma inv_tr_accept:
  assumes "inv_tr sn rs ws tr" "u \<notin> rs" "\<And>v. w \<noteq> AwaitSem v"
  shows "inv_tr sn (insert u rs) (ws[i := w]) (Accept u # tr)"
  using assms(1,2) awaiting_update_other[of w ws i, OF assms(3)] unfolding inv_tr_def by auto

lemma inv_tr_puts:
  assumes "inv_tr sn rs ws tr" "set ps \<inter> sn = {}"
  shows "inv_tr sn rs ws (rev (map Put ps) @ tr)"
  using assms unfolding inv_tr_def by (simp add: puts_only no_put_after_seen_puts)

lemma links_to_put_sound:
  "links_to_put e ctx sn ls = Inr ps \<Longrightarrow>
     set ps \<subseteq> set ls \<and> (\<forall>p\<in>set ps. p \<notin> sn \<and> same_site e p ctx = Inr True)"
  by (induction ls arbitrary: ps) (auto split: sum.splits if_splits)

lemma inv_trace_head: "inv_trace s \<Longrightarrow> inv_trace (step_head mp i s)"
  by (simp add: inv_trace_def step_head_def set_worker_def inv_tr_idle)

lemma inv_trace_get: "inv_trace s \<Longrightarrow> inv_trace (step_get i s)"
  by (simp add: inv_trace_def step_get_def set_worker_def inv_tr_idle split: list.splits)

lemma inv_trace_item: "inv_trace s \<Longrightarrow> inv_trace (step_item e ctx excl i u s)"
  by (simp add: inv_trace_def step_item_def set_worker_def raise_def Let_def inv_tr_idle
      inv_tr_claim split: sum.splits bool.splits)

lemma inv_trace_sem:
  "inv_trace s \<Longrightarrow> inv_frontier s \<Longrightarrow> i < length (workers s) \<Longrightarrow> workers s ! i = AwaitSem u
     \<Longrightarrow> inv_trace (step_sem i u s)"
  by (simp add: inv_trace_def inv_frontier_def step_sem_def set_worker_def inv_tr_sem)

lemma inv_trace_fetch:
  assumes "inv_trace s" "inv_frontier s" "i < length (workers s)" "workers s ! i = InFetch u"
  shows "inv_trace (step_fetch e ctx mp i u s)"
proof -
  have u: "u \<notin> results s"
    using inv_partsD(4)[OF assms(2)[unfolded inv_frontier_def], of i u] assms(3,4) by simp
  have puts: "links_to_put e ctx (seen s) ls = Inr ps \<Longrightarrow> set ps \<inter> seen s = {}" for ls ps
    using links_to_put_sound[of e ctx "seen s" ls ps] by blast
  show ?thesis
    using assms(1) u puts
    by (simp add: inv_trace_def step_fetch_def set_worker_def raise_def Let_def inv_tr_idle
        inv_tr_accept inv_tr_puts split: sum.splits option.splits)
qed

lemma inv_trace_step:
  "inv_trace s \<Longrightarrow> inv_frontier s \<Longrightarrow> inv_trace (step e ctx mp excl i s)"
  by (simp add: step_def inv_trace_head inv_trace_get inv_trace_item inv_trace_sem
      inv_trace_fetch split: wstate.splits)

lemma sum_list_map_update:
  "i < length ws \<Longrightarrow>
     sum_list (map f (ws[i := w])) + f (ws ! i) = sum_list (map f ws) + (f w :: nat)"
proof (induction ws arbitrary: i)
  case Nil
  then show ?case by simp
next
  case (Cons a ws)
  then show ?case by (cases i) auto
qed

lemma inv_sem_set_worker:
  assumes "i < length (workers s)"
  shows "inv_sem (set_worker i w s) =
           (permits s + sum_list (map holds_permit (workers s)) + holds_permit w
              = length (workers s) + holds_permit (workers s ! i))"
  using sum_list_map_update[OF assms, of holds_permit w]
  by (auto simp: inv_sem_def set_worker_def)

lemma inv_sem_step_head:
  "inv_sem s \<Longrightarrow> i < length (workers s) \<Longrightarrow> workers s ! i = AtLoopHead \<Longrightarrow> inv_sem (step_head mp i s)"
  by (simp add: step_head_def inv_sem_set_worker) (simp add: inv_sem_def)

lemma inv_sem_step_get:
  "inv_sem s \<Longrightarrow> i < length (workers s) \<Longrightarrow> workers s ! i = InGet \<Longrightarrow> inv_sem (step_get i s)"
  by (simp add: step_get_def inv_sem_set_worker split: list.splits) (simp add: inv_sem_def)

lemma inv_sem_step_item:
  "inv_sem s \<Longrightarrow> i < length (workers s) \<Longrightarrow> workers s ! i = HasItem u
     \<Longrightarrow> inv_sem (step_item e ctx excl i u s)"
  by (simp add: step_item_def raise_def Let_def inv_sem_set_worker split: sum.splits bool.splits)
     (simp add: inv_sem_def)

lemma inv_sem_step_sem:
  "inv_sem s \<Longrightarrow> i < length (workers s) \<Longrightarrow> workers s ! i = AwaitSem u \<Longrightarrow> inv_sem (step_sem i u s)"
  by (simp add: step_sem_def inv_sem_set_worker) (simp add: inv_sem_def)

lemma inv_sem_step_fetch:
  "inv_sem s \<Longrightarrow> i < length (workers s) \<Longrightarrow> workers s ! i = InFetch u
     \<Longrightarrow> inv_sem (step_fetch e ctx mp i u s)"
  by (simp add: step_fetch_def raise_def Let_def inv_sem_set_worker split: sum.splits option.splits)
     (simp add: inv_sem_def)

lemma inv_sem_step: "inv_sem s \<Longrightarrow> inv_sem (step e ctx mp excl i s)"
  by (simp add: step_def inv_sem_step_head inv_sem_step_get inv_sem_step_item inv_sem_step_sem
      inv_sem_step_fetch split: wstate.splits)

lemma rank_worker:
  assumes "i < length ws" "weight w < weight (ws ! i)"
  shows "(rank_of mp rs q (ws[i := w]), rank_of mp rs q ws) \<in> rank_less"
  using sum_list_map_update[OF assms(1), of weight w] assms(2) by (auto simp: rank_of_def)

lemma rank_dequeue:
  assumes "i < length ws" "weight w < weight (ws ! i) + 5"
  shows "(rank_of mp rs q (ws[i := w]), rank_of mp rs (u # q) ws) \<in> rank_less"
  using sum_list_map_update[OF assms(1), of weight w] assms(2) by (auto simp: rank_of_def)

lemma rank_accept_exit:
  assumes "i < length ws" "weight w < weight (ws ! i)" "finite rs"
  shows "(rank_of mp (insert u rs) q (ws[i := w]), rank_of mp rs q ws) \<in> rank_less"
proof -
  have "card rs \<le> card (insert u rs)" using assms(3) by (simp add: card_insert_le)
  then show ?thesis
    using sum_list_map_update[OF assms(1), of weight w] assms(2) by (auto simp: rank_of_def)
qed

lemma rank_accept_more:
  assumes "finite rs" "u \<notin> rs" "int (card (insert u rs)) < mp"
  shows "(rank_of mp (insert u rs) q' ws', rank_of mp rs q ws) \<in> rank_less"
  using assms by (auto simp: rank_of_def)

lemma rank_step_head:
  "i < length (workers s) \<Longrightarrow> workers s ! i = AtLoopHead
     \<Longrightarrow> (rank mp (step_head mp i s), rank mp s) \<in> rank_less"
  by (simp add: step_head_def set_worker_def rank_def rank_worker)

lemma rank_step_get:
  "i < length (workers s) \<Longrightarrow> workers s ! i = InGet
     \<Longrightarrow> (rank mp (step_get i s), rank mp s) \<in> rank_less"
  by (simp add: step_get_def set_worker_def rank_def rank_worker rank_dequeue split: list.splits)

lemma rank_step_item:
  "i < length (workers s) \<Longrightarrow> workers s ! i = HasItem u
     \<Longrightarrow> (rank mp (step_item e ctx excl i u s), rank mp s) \<in> rank_less"
  by (simp add: step_item_def set_worker_def raise_def Let_def rank_def rank_worker
      split: sum.splits bool.splits)

lemma rank_step_sem:
  "i < length (workers s) \<Longrightarrow> workers s ! i = AwaitSem u \<Longrightarrow> 0 < permits s
     \<Longrightarrow> (rank mp (step_sem i u s), rank mp s) \<in> rank_less"
  by (simp add: step_sem_def set_worker_def rank_def rank_worker)

lemma rank_step_fetch:
  assumes "inv_frontier s" "i < length (workers s)" "workers s ! i = InFetch u"
  shows "(rank mp (step_fetch e ctx mp i u s), rank mp s) \<in> rank_less"
proof -
  have "finite (results s)" "u \<notin> results s"
    using inv_partsD(2,4)[OF assms(1)[unfolded inv_frontier_def]] assms(2,3) by auto
  then show ?thesis using assms(2,3)
    by (simp add: step_fetch_def set_worker_def raise_def Let_def rank_def rank_worker
        rank_accept_exit rank_accept_more split: sum.splits option.splits)
qed

lemma rank_step:
  "inv_frontier s \<Longrightarrow> enabled i s
     \<Longrightarrow> (rank mp (step e ctx mp excl i s), rank mp s) \<in> rank_less"
  by (auto simp: enabled_def step_def rank_step_head rank_step_get rank_step_item rank_step_sem
      rank_step_fetch split: wstate.splits)

lemma holds_permit_le: "holds_permit w \<le> 1"
  by (cases w) auto

lemma sum_holds_le: "sum_list (map holds_permit ws) \<le> length ws"
proof (induction ws)
  case Nil
  then show ?case by simp
next
  case (Cons w ws)
  then show ?case using holds_permit_le[of w] by simp
qed

lemma all_hold:
  "sum_list (map holds_permit ws) = length ws \<Longrightarrow> j < length ws \<Longrightarrow> holds_permit (ws ! j) = 1"
proof (induction ws arbitrary: j)
  case Nil
  then show ?case by simp
next
  case (Cons w ws)
  from Cons.prems(1) sum_holds_le[of ws] holds_permit_le[of w] have "holds_permit w = 1" "sum_list (map holds_permit ws) = length ws"
    by auto
  then show ?case using Cons.IH Cons.prems(2) by (cases j) auto
qed

lemma progress:
  assumes "inv_sem s" "\<not> finished s"
  shows "\<exists>i<length (workers s). enabled i s"
proof -
  from assms(2) obtain j where j: "j < length (workers s)" "workers s ! j \<noteq> Exited"
    by (auto simp: finished_def all_exited_def list_all_length)
  have r: "raised s = None" using assms(2) by (simp add: finished_def)
  show ?thesis
  proof (cases "permits s = 0")
    case True
    then have "holds_permit (workers s ! j) = 1"
      using all_hold[of "workers s" j] assms(1) j(1) by (simp add: inv_sem_def)
    then have "enabled j s" using r j by (cases "workers s ! j") (auto simp: enabled_def)
    then show ?thesis using j(1) by blast
  next
    case False
    then have "enabled j s" using r j by (cases "workers s ! j") (auto simp: enabled_def)
    then show ?thesis using j(1) by blast
  qed
qed

lemma inv_all_step: "inv_all s \<Longrightarrow> inv_all (step e ctx mp excl i s)"
  by (simp add: inv_all_def inv_frontier_step inv_trace_step inv_sem_step)

lemma inv_all_run: "inv_all s \<Longrightarrow> inv_all (run e ctx mp excl sched s)"
  unfolding run_def by (induction sched arbitrary: s) (simp_all add: inv_all_step)

lemma inv_all_init: "inv_all (init e ctx mp n seeds)"
proof -
  have "inv_parts {} {} (replicate n AtLoopHead)"
    by (rule inv_partsI) auto
  moreover have "awaiting (replicate n AtLoopHead) = {}"
    by (auto simp: awaiting_def)
  then have "inv_tr {} {} (replicate n AtLoopHead) (rev (map Put q) @ [Put r])" for q r
    unfolding inv_tr_def by (simp only: puts_only no_put_after_seen_puts) simp
  moreover have "sum_list (map holds_permit (replicate n AtLoopHead)) = 0"
    by (induction n) auto
  ultimately show ?thesis
    by (simp add: inv_all_def inv_frontier_def inv_trace_def inv_sem_def init_def)
qed

lemma inv_all_crawl: "inv_all (crawl_bfs_from e ctx mp conc excl seeds sched)"
  by (simp add: crawl_bfs_from_def inv_all_run inv_all_init)

lemma run_append: "run e ctx mp excl (xs @ ys) s = run e ctx mp excl ys (run e ctx mp excl xs s)"
  by (simp add: run_def)

lemma run_Cons: "run e ctx mp excl (i # sched) s = run e ctx mp excl sched (step e ctx mp excl i s)"
  by (simp add: run_def)

lemma wf_rank: "wf (inv_image rank_less (rank mp))"
  by (intro wf_inv_image wf_lex_prod wf_less_than)

lemma completes:
  assumes "inv_all s"
  shows "\<exists>sched. finished (run e ctx mp excl sched s)"
  using wf_rank[of mp] assms
proof (induction s rule: wf_induct_rule)
  case (less s)
  show ?case
  proof (cases "finished s")
    case True
    then have "finished (run e ctx mp excl [] s)" by (simp add: run_def)
    then show ?thesis by blast
  next
    case False
    with less.prems obtain i where i: "enabled i s"
      using progress[of s] by (auto simp: inv_all_def)
    let ?s = "step e ctx mp excl i s"
    have "(rank mp ?s, rank mp s) \<in> rank_less"
      using rank_step[OF _ i] less.prems by (simp add: inv_all_def)
    moreover have "inv_all ?s" using less.prems by (rule inv_all_step)
    ultimately obtain sched where "finished (run e ctx mp excl sched ?s)"
      using less.IH[of ?s] by auto
    then have "finished (run e ctx mp excl (i # sched) s)" by (simp add: run_Cons)
    then show ?thesis by blast
  qed
qed

lemma wf_steps:
  "wf {(s', s). inv_all s \<and> (\<exists>i. enabled i s \<and> s' = step e ctx mp excl i s)}"
proof (rule wf_subset)
  show "wf (inv_image rank_less (rank mp))" by (rule wf_rank)
  show "{(s', s). inv_all s \<and> (\<exists>i. enabled i s \<and> s' = step e ctx mp excl i s)}
          \<subseteq> inv_image rank_less (rank mp)"
    using rank_step by (auto simp: inv_image_def inv_all_def)
qed


























lemma old_post_inj: "old_post n = old_post m \<Longrightarrow> n = m"
  by (simp add: old_post_def)








lemma list_all_update: "list_all P ws \<Longrightarrow> P w \<Longrightarrow> list_all P (ws[i := w])"
  using set_update_subset_insert[of ws i w] by (auto simp: list_all_iff)

lemma only_root_step:
  assumes "only_root (root ctx) s"
    and "same_site e (root ctx) ctx = Inr in_scope"
    and "any_excluded e excl (root ctx) = Inr excluded"
    and "fetch e (root ctx) = None"
  shows "only_root (root ctx) (step e ctx mp excl i s)"
proof (cases "i < length (workers s)")
  case False
  then show ?thesis using assms(1) by (simp add: step_def)
next
  case True
  have a: "about (root ctx) (workers s ! i)"
    using assms(1) True by (simp add: only_root_def list_all_length)
  show ?thesis
  proof (cases "workers s ! i")
    case AtLoopHead
    then show ?thesis using assms(1) True
      by (simp add: step_def step_head_def set_worker_def only_root_def list_all_update)
  next
    case InGet
    then show ?thesis using assms(1) True
      by (auto simp: step_def step_get_def set_worker_def only_root_def list_all_update
          split: list.splits)
  next
    case Exited
    then show ?thesis using assms(1) True by (simp add: step_def only_root_def)
  next
    case (HasItem u)
    then show ?thesis using assms(1,2,3) True a
      by (auto simp: step_def step_item_def set_worker_def raise_def only_root_def Let_def
          list_all_update split: sum.splits bool.splits)
  next
    case (AwaitSem u)
    then show ?thesis using assms(1) True a
      by (simp add: step_def step_sem_def set_worker_def only_root_def list_all_update)
  next
    case (InFetch u)
    then show ?thesis using assms(1,4) True a
      by (simp add: step_def step_fetch_def set_worker_def only_root_def list_all_update)
  qed
qed

lemma only_root_run:
  assumes "only_root (root ctx) s"
    and "same_site e (root ctx) ctx = Inr in_scope"
    and "any_excluded e excl (root ctx) = Inr excluded"
    and "fetch e (root ctx) = None"
  shows "only_root (root ctx) (run e ctx mp excl sched s)"
  using assms(1) unfolding run_def
  by (induction sched arbitrary: s) (simp_all add: only_root_step[OF _ assms(2,3,4)])

lemma only_root_init:
  "seeded e mp seeds = [] \<Longrightarrow> only_root (root ctx) (init e ctx mp n seeds)"
  by (simp add: only_root_def init_def list_all_iff)

lemma merge_seeds_nil: "merge_seeds mp all_urls [] = all_urls"
  by simp

section \<open>The claims about the crawl\<close>

lemma no_put_after_seen_split:
  "no_put_after_seen (newer @ older) \<Longrightarrow> Put u \<in> set newer \<Longrightarrow> Seen u \<notin> set older"
proof (induction newer)
  case Nil
  then show ?case by simp
next
  case (Cons ev newer)
  have seens_mem: "(v \<in> set (seens tr)) = (Seen v \<in> set tr)" for v tr
    by (induction tr rule: seens.induct) auto
  have seens_app: "set (seens older) \<subseteq> set (seens (newer @ older))"
    by (simp add: seens_mem subset_iff)
  show ?case
  proof (cases ev)
    case (Put v)
    with Cons show ?thesis using seens_app seens_mem by (cases "v = u") auto
  qed (use Cons in auto)
qed

lemma crawl_bfs_returns: "\<exists>sched. crawl_bfs e root_url mp conc incl excl sched \<noteq> None"
proof (cases "build_ctx e root_url")
  case (Inl err)
  then show ?thesis by (simp add: crawl_bfs_def)
next
  case (Inr ctx)
  show ?thesis
  proof (cases "discover_from_feeds e (root ctx)")
    case (Inl err)
    then show ?thesis using Inr by (simp add: crawl_bfs_def)
  next
    case ff: (Inr from_feeds)
    obtain sched where
      "finished (crawl_bfs_from e ctx mp conc excl (discover_from_sitemap e (root ctx) @ from_feeds) sched)"
      using completes[OF inv_all_init] unfolding crawl_bfs_from_def by blast
    then have "crawl_bfs e root_url mp conc incl excl sched \<noteq> None"
      using Inr ff by (auto simp: crawl_bfs_def finished_def Let_def split: option.splits)
    then show ?thesis by blast
  qed
qed

lemma crawl_site_returns: "\<exists>sched. crawl_site e root_url mp conc incl excl sched \<noteq> None"
proof -
  obtain sched where "crawl_bfs e root_url mp conc incl excl sched \<noteq> None"
    using crawl_bfs_returns by blast
  then have "crawl_site e root_url mp conc incl excl sched \<noteq> None"
    by (auto simp: crawl_site_def Let_def split: sum.splits option.splits)
  then show ?thesis by blast
qed

lemma crawl_site_distinct:
  "crawl_site e root_url mp conc incl excl sched = Some (Inr out) \<Longrightarrow> distinct out"
  by (auto simp: crawl_site_def Let_def split: sum.splits option.splits if_splits)

text \<open>
  C3. On every site, with or without link cycles, the crawl terminates: from a frontier
  that the workers can reach, the steps that a worker can take form a well-founded
  relation, so no run is infinite; every run can be continued to one in which
  \<^verbatim>\<open>gather\<close> has returned or raised; and for some schedule \<^verbatim>\<open>crawl_site\<close> has a result.
  No URL is passed to \<^verbatim>\<open>fetch\<close> twice, and the list that \<^verbatim>\<open>crawl_site\<close> returns has no
  URL twice.
\<close>

theorem crawl_terminates:
  "wf {(s', s). (\<exists>sched. s = crawl_bfs_from e ctx max_pages concurrency excl seeds sched)
                \<and> (\<exists>i. enabled i s \<and> s' = step e ctx max_pages excl i s)}
   \<and> (\<forall>sched. \<exists>more.
         finished (crawl_bfs_from e ctx max_pages concurrency excl seeds (sched @ more)))
   \<and> (\<forall>sched. distinct (fetches (trace (crawl_bfs_from e ctx max_pages concurrency excl seeds sched))))
   \<and> (\<forall>root_url incl. \<exists>sched. crawl_site e root_url max_pages concurrency incl excl sched \<noteq> None)
   \<and> (\<forall>root_url incl sched out.
         crawl_site e root_url max_pages concurrency incl excl sched = Some (Inr out) \<longrightarrow> distinct out)"
proof (intro conjI allI impI)
  show "wf {(s', s). (\<exists>sched. s = crawl_bfs_from e ctx max_pages concurrency excl seeds sched)
                \<and> (\<exists>i. enabled i s \<and> s' = step e ctx max_pages excl i s)}"
    by (rule wf_subset[OF wf_steps[of e ctx max_pages excl]]) (auto simp: inv_all_crawl)
next
  fix sched
  obtain more where
    "finished (run e ctx max_pages excl more (crawl_bfs_from e ctx max_pages concurrency excl seeds sched))"
    using completes[OF inv_all_crawl] by blast
  then show "\<exists>more. finished (crawl_bfs_from e ctx max_pages concurrency excl seeds (sched @ more))"
    unfolding crawl_bfs_from_def run_append by blast
next
  fix sched
  show "distinct (fetches (trace (crawl_bfs_from e ctx max_pages concurrency excl seeds sched)))"
    using inv_all_crawl[of e ctx max_pages concurrency excl seeds sched]
    by (simp add: inv_all_def inv_trace_def inv_tr_def)
next
  fix root_url incl
  show "\<exists>sched. crawl_site e root_url max_pages concurrency incl excl sched \<noteq> None"
    by (rule crawl_site_returns)
next
  fix root_url incl sched out
  assume "crawl_site e root_url max_pages concurrency incl excl sched = Some (Inr out)"
  then show "distinct out" by (rule crawl_site_distinct)
qed

theorem crawl_terminates_witness:
  "crawl_site cycle_site ''https://a.com'' 10 2 [] [] [0,0,0,0,0,1,1,1,1,1,0,0,1,1]
     = Some (Inr [''https://a.com/'', ''https://a.com/b''])
   \<and> distinct [''https://a.com/'', ''https://a.com/b'']
   \<and> fetches (trace (crawl_bfs_from cycle_site a_ctx 10 2 [] [] [0,0,0,0,0,1,1,1,1,1,0,0,1,1]))
       = [''https://a.com/b'', ''https://a.com/'']"
proof -
  have r: "crawl_site cycle_site ''https://a.com'' 10 2 [] [] [0,0,0,0,0,1,1,1,1,1,0,0,1,1]
     = Some (Inr [''https://a.com/'', ''https://a.com/b''])"
    by code_simp
  have f: "fetches (trace (crawl_bfs_from cycle_site a_ctx 10 2 [] [] [0,0,0,0,0,1,1,1,1,1,0,0,1,1]))
       = [''https://a.com/b'', ''https://a.com/'']"
    by code_simp
  from crawl_terminates[of cycle_site a_ctx 10 2 "[]" "[]"] r
  have "distinct [''https://a.com/'', ''https://a.com/b'']" by blast
  with r f show ?thesis by simp
qed

text \<open>
  C4. In every interleaving of the workers, no URL is put on the queue after it was added
  to \<open>seen\<close> (in the trace, which has the newest event first, no \<open>Put u\<close> comes before a
  \<open>Seen u\<close>), and each URL is passed to \<^verbatim>\<open>fetch\<close> at most once and added to the results at
  most once, however many pages link to it.
\<close>

theorem seen_is_never_enqueued_again:
  "(\<forall>newer older u.
      trace (crawl_bfs_from e ctx max_pages concurrency excl seeds sched) = newer @ older
        \<and> Put u \<in> set newer \<longrightarrow> Seen u \<notin> set older)
   \<and> distinct (fetches (trace (crawl_bfs_from e ctx max_pages concurrency excl seeds sched)))
   \<and> distinct (accepts (trace (crawl_bfs_from e ctx max_pages concurrency excl seeds sched)))
   \<and> set (accepts (trace (crawl_bfs_from e ctx max_pages concurrency excl seeds sched)))
       = results (crawl_bfs_from e ctx max_pages concurrency excl seeds sched)
   \<and> set (seens (trace (crawl_bfs_from e ctx max_pages concurrency excl seeds sched)))
       = seen (crawl_bfs_from e ctx max_pages concurrency excl seeds sched)"
  using inv_all_crawl[of e ctx max_pages concurrency excl seeds sched] no_put_after_seen_split
  unfolding inv_all_def inv_trace_def inv_tr_def by metis

theorem seen_is_never_enqueued_again_witness:
  "trace (crawl_bfs_from diamond_site a_ctx 10 2 [] [] [0,0,0,0,0,0,0,0,0,1,1,1,1,1,0,0,0,1,1])
     = [Accept ''https://a.com/b'', Accept ''https://a.com/c'', Fetch ''https://a.com/c'',
        Seen ''https://a.com/c'', Fetch ''https://a.com/b'', Seen ''https://a.com/b'',
        Put ''https://a.com/c'', Put ''https://a.com/b''] @
       [Accept ''https://a.com/'', Fetch ''https://a.com/'', Seen ''https://a.com/'',
        Put ''https://a.com/'']
   \<and> Seen ''https://a.com/c'' \<notin> set
       [Accept ''https://a.com/'', Fetch ''https://a.com/'', Seen ''https://a.com/'',
        Put ''https://a.com/'']
   \<and> distinct (fetches (trace (crawl_bfs_from diamond_site a_ctx 10 2 [] []
         [0,0,0,0,0,0,0,0,0,1,1,1,1,1,0,0,0,1,1])))"
proof -
  have t: "trace (crawl_bfs_from diamond_site a_ctx 10 2 [] [] [0,0,0,0,0,0,0,0,0,1,1,1,1,1,0,0,0,1,1])
     = [Accept ''https://a.com/b'', Accept ''https://a.com/c'', Fetch ''https://a.com/c'',
        Seen ''https://a.com/c'', Fetch ''https://a.com/b'', Seen ''https://a.com/b'',
        Put ''https://a.com/c'', Put ''https://a.com/b''] @
       [Accept ''https://a.com/'', Fetch ''https://a.com/'', Seen ''https://a.com/'',
        Put ''https://a.com/'']"
    by code_simp
  from seen_is_never_enqueued_again[of diamond_site a_ctx 10 2 "[]" "[]"
      "[0,0,0,0,0,0,0,0,0,1,1,1,1,1,0,0,0,1,1]"]
  show ?thesis unfolding t by simp
qed

text \<open>
  C6. \<^verbatim>\<open>include_patterns\<close> has no effect: under the same environment and schedule, two
  calls of \<^verbatim>\<open>crawl_site\<close> that differ in it only give the same result.
\<close>

theorem include_patterns_ignored:
  "crawl_site e root_url max_pages concurrency include_patterns exclude_patterns sched
     = crawl_site e root_url max_pages concurrency include_patterns' exclude_patterns sched"
  unfolding crawl_site_def crawl_bfs_def by (rule refl)

text \<open>
  C1, at the failing input. Budget 1 and two workers, on the site whose sitemap lists one
  page besides the home page: both workers pass \<^verbatim>\<open>len(results) < max_pages\<close> and take
  a URL before either has fetched its page; both pages are then added. The results hold
  two URLs, and \<^verbatim>\<open>crawl_site\<close> returns both.
\<close>

theorem cap_exceeded_by_two_workers:
  "crawl_bfs two_pages ''https://a.com'' 1 2 [] [] [0,0,0,0,1,1,1,1,0,1]
     = Some (Inr {''https://a.com/'', ''https://a.com/p''})
   \<and> crawl_site two_pages ''https://a.com'' 1 2 [] [] [0,0,0,0,1,1,1,1,0,1]
     = Some (Inr [''https://a.com/'', ''https://a.com/p''])"
  by code_simp

text \<open>
  C2, at the failing input. The sitemap lists \<^verbatim>\<open>https://a.com/privacy\<close> and the exclusion
  pattern is \<^verbatim>\<open>/privacy\<close>. The worker discards the URL, so it is not in the results of
  \<^verbatim>\<open>crawl_bfs\<close>; the loop of \<^verbatim>\<open>crawl_site\<close> over the seed candidates adds it without
  any filter.
\<close>

theorem excluded_seed_in_output:
  "crawl_bfs privacy_site ''https://a.com'' 10 1 [] [''/privacy''] [0,0,0,0,0,0,0,0,0,0]
     = Some (Inr {''https://a.com/''})
   \<and> crawl_site privacy_site ''https://a.com'' 10 1 [] [''/privacy''] [0,0,0,0,0,0,0,0,0,0]
     = Some (Inr [''https://a.com/'', ''https://a.com/privacy''])"
  by code_simp






text \<open>
  C5, as stated, fails: with the root unreachable and no seed discovered, \<^verbatim>\<open>crawl_site\<close>
  raises when an exclusion pattern is not a regular expression (the worker calls
  \<^verbatim>\<open>re.search\<close> on the root before it would fetch it), and when \<^verbatim>\<open>urlparse\<close> rejects the
  root URL (\<^verbatim>\<open>build_ctx\<close> calls it outside any \<^verbatim>\<open>try\<close>).
\<close>

theorem unreachable_root_raises:
  "fetch dead_site_re ''https://a.com/'' = None
   \<and> discover_from_sitemap dead_site_re ''https://a.com'' = []
   \<and> discover_from_feeds dead_site_re ''https://a.com'' = Inr []
   \<and> crawl_site dead_site_re ''https://a.com'' 10 1 [] [''(''] [0,0,0] = Some (Inl ReError)
   \<and> crawl_site dead_site ''http://['' 10 1 [] [] [] = Some (Inl ValueError)"
  by code_simp

text \<open>
  C5, amended. When \<^verbatim>\<open>urlparse\<close> accepts the root URL and its normal form, no exclusion
  pattern raises on the root, the concurrency is not negative, the root is unreachable and
  no seed URL is discovered, \<^verbatim>\<open>crawl_site\<close> returns exactly \<^verbatim>\<open>[root_url]\<close>: that is its
  result under every schedule under which it has one, and it has one.
\<close>

theorem unreachable_root_fallback:
  assumes "build_ctx e root_url = Inr ctx"
    and "same_site e (root ctx) ctx = Inr in_scope"
    and "any_excluded e exclude_patterns (root ctx) = Inr excluded"
    and "0 \<le> concurrency"
    and "fetch e (root ctx) = None"
    and "discover_from_feeds e root_url = Inr urls_from_feeds"
    and "py_list e (discover_from_sitemap e root_url @ urls_from_feeds) = []"
    and "discover_from_feeds e (root ctx) = Inr from_feeds"
    and "py_list e (discover_from_sitemap e (root ctx) @ from_feeds) = []"
  shows "(\<forall>sched r. crawl_site e root_url max_pages concurrency include_patterns
                     exclude_patterns sched = Some r \<longrightarrow> r = Inr [root_url])
         \<and> (\<exists>sched. crawl_site e root_url max_pages concurrency include_patterns
                     exclude_patterns sched = Some (Inr [root_url]))"
proof -
  let ?seeds = "discover_from_sitemap e (root ctx) @ from_feeds"
  have sd: "seeded e max_pages ?seeds = []" using assms(9) by (simp add: seeded_def)
  have inv: "only_root (root ctx) (crawl_bfs_from e ctx max_pages concurrency exclude_patterns ?seeds sched)" for sched
    unfolding crawl_bfs_from_def
    by (rule only_root_run[OF only_root_init[OF sd] assms(2,3,5)])
  have bfs: "crawl_bfs e root_url max_pages concurrency include_patterns exclude_patterns sched
      = Some cr \<Longrightarrow> cr = Inr {}" for sched cr
    using inv[of sched] assms(1,4,8)
    by (auto simp: crawl_bfs_def Let_def only_root_def split: if_splits)
  have site: "crawl_site e root_url max_pages concurrency include_patterns exclude_patterns sched
      = Some r \<Longrightarrow> r = Inr [root_url]" for sched r
  proof -
    assume r: "crawl_site e root_url max_pages concurrency include_patterns exclude_patterns sched = Some r"
    then obtain cr where cr: "crawl_bfs e root_url max_pages concurrency include_patterns exclude_patterns sched = Some cr"
      using assms(1,6) by (auto simp: crawl_site_def Let_def split: option.splits)
    with bfs have "cr = Inr {}" by blast
    with r cr show ?thesis using assms(1,6,7) by (simp add: crawl_site_def)
  qed
  moreover obtain sched where "crawl_site e root_url max_pages concurrency include_patterns
                     exclude_patterns sched \<noteq> None"
    using crawl_site_returns by blast
  ultimately show ?thesis by (metis not_None_eq)
qed

theorem unreachable_root_fallback_witness:
  "build_ctx dead_site ''https://a.com'' = Inr a_ctx
   \<and> same_site dead_site (root a_ctx) a_ctx = Inr True
   \<and> any_excluded dead_site [''/privacy''] (root a_ctx) = Inr False
   \<and> (0::int) \<le> 2
   \<and> fetch dead_site (root a_ctx) = None
   \<and> discover_from_feeds dead_site ''https://a.com'' = Inr []
   \<and> py_list dead_site (discover_from_sitemap dead_site ''https://a.com'' @ []) = []
   \<and> discover_from_feeds dead_site (root a_ctx) = Inr []
   \<and> py_list dead_site (discover_from_sitemap dead_site (root a_ctx) @ []) = []
   \<and> crawl_site dead_site ''https://a.com'' 10 2 [] [''/privacy''] [0,0,0,0,0,0,0,1,1]
       = Some (Inr [''https://a.com''])"
proof -
  have h: "build_ctx dead_site ''https://a.com'' = Inr a_ctx"
    "same_site dead_site (root a_ctx) a_ctx = Inr True"
    "any_excluded dead_site [''/privacy''] (root a_ctx) = Inr False"
    "(0::int) \<le> 2"
    "fetch dead_site (root a_ctx) = None"
    "discover_from_feeds dead_site ''https://a.com'' = Inr []"
    "py_list dead_site (discover_from_sitemap dead_site ''https://a.com'' @ []) = []"
    "discover_from_feeds dead_site (root a_ctx) = Inr []"
    "py_list dead_site (discover_from_sitemap dead_site (root a_ctx) @ []) = []"
    by code_simp+
  have "crawl_site dead_site ''https://a.com'' 10 2 [] [''/privacy''] [0,0,0,0,0,0,0,1,1] \<noteq> None"
    by code_simp
  with unreachable_root_fallback[OF h, of 10 "[]"] h show ?thesis by auto
qed


end
